theory Spec2Isabelle
  imports Main "HOL-Library.Word"
begin

section \<open>Data model of \<open>lib/parfor.h\<close>\<close>

text \<open>
  \<open>ParallelForT<MIN_SIZE>\<close> is a struct template of static member functions. The
  template parameter \<open>MIN_SIZE\<close> is the first argument of every function below
  (\<open>ParallelFor\<close> is the instance at 1024). \<open>uint64_t\<close> is a 64-bit word and
  \<open>unsigned\<close> a 32-bit word; arithmetic on both wraps around. Undefined behaviour of the
  C++ (a division by zero, a vector store out of range) is an error value.
\<close>

type_synonym uint64 = "64 word"
type_synonym unsigned = "32 word"

datatype error = DivisionByZero | IndexOutOfRange

subsection \<open>The range partitioner\<close>

text \<open>
  \<open>size * thread_id / num_threads\<close>: both \<open>unsigned\<close> operands are converted to
  \<open>uint64_t\<close>, the product is taken modulo \<open>2^64\<close>, then divided. In \<open>GetIndex1\<close> the
  sum \<open>thread_id + 1\<close> is computed in \<open>unsigned\<close> before the conversion.
\<close>

definition GetIndex0 :: "uint64 \<Rightarrow> uint64 \<Rightarrow> unsigned \<Rightarrow> unsigned \<Rightarrow> error + uint64" where
  "GetIndex0 MIN_SIZE sz num_threads thread_id =
     (if sz \<ge> MIN_SIZE then
        (if num_threads = 0 then Inl DivisionByZero
         else Inr (sz * ucast thread_id div ucast num_threads))
      else Inr 0)"

definition GetIndex1 :: "uint64 \<Rightarrow> uint64 \<Rightarrow> unsigned \<Rightarrow> unsigned \<Rightarrow> error + uint64" where
  "GetIndex1 MIN_SIZE sz num_threads thread_id =
     (if sz \<ge> MIN_SIZE then
        (if num_threads = 0 then Inl DivisionByZero
         else Inr (sz * ucast (thread_id + 1) div ucast num_threads))
      else Inr sz)"

subsection \<open>Loops and the parallel region\<close>

text \<open>
  \<open>for (uint64_t i = i0; i < i1; ++i) body\<close>, as a state transformer. The loop stops
  before \<open>i\<close> can wrap, since \<open>i < i1\<close> holds whenever \<open>i\<close> is incremented.
\<close>

function for_loop :: "uint64 \<Rightarrow> uint64 \<Rightarrow> (uint64 \<Rightarrow> 's \<Rightarrow> 's) \<Rightarrow> 's \<Rightarrow> 's" where
  "for_loop i i1 body s = (if i < i1 then for_loop (i + 1) i1 body (body i s) else s)"
  by pat_completeness auto
termination
proof (relation "measure (\<lambda>(i, i1, body, s). unat i1 - unat i)")
  show "wf (measure (\<lambda>(i, i1, body, s). unat i1 - unat i))" by simp
next
  fix i i1 :: uint64 and body :: "uint64 \<Rightarrow> 's \<Rightarrow> 's" and s :: 's
  assume lt: "i < i1"
  then have "unat i < unat i1" by (simp add: word_less_nat_alt)
  moreover have "unat i1 < 2 ^ 64" using unsigned_less [of i1, where 'a = nat] by simp
  ultimately have "unat i < unat i1" and "unat i + 1 < 2 ^ 64" by linarith+
  then have "unat i < unat i1" and "unat (i + 1) = Suc (unat i)"
    by (simp_all add: unat_word_ariths)
  then show "((i + 1, i1, body, body i s), (i, i1, body, s))
      \<in> measure (\<lambda>(i, i1, body, s). unat i1 - unat i)" by simp
qed

declare for_loop.simps [simp del]

text \<open>
  \<open>#pragma omp parallel num_threads(num_threads)\<close>: the runtime forms a team and every
  member executes the block once. The team size the runtime grants is not decided by
  this file, so it is the argument \<open>granted\<close>; it is what \<open>omp_get_num_threads()\<close>
  returns inside the region, and \<open>omp_get_thread_num()\<close> is the member's id, from 0 to
  \<open>granted - 1\<close>. OpenMP promises \<open>1 \<le> granted \<le> num_threads\<close>. The members are run
  here in the order of their ids: the blocks of this file touch disjoint state (each
  worker its own slot, or whatever the callback writes for its own indices), so the
  interleaving is not modelled. A block that fails makes the region fail.
\<close>

fun team :: "(unsigned \<Rightarrow> 's \<Rightarrow> error + 's) \<Rightarrow> unsigned list \<Rightarrow> 's \<Rightarrow> error + 's" where
  "team block [] s = Inr s"
| "team block (m # ms) s =
     (case block m s of Inl e \<Rightarrow> Inl e | Inr s' \<Rightarrow> team block ms s')"

definition omp_parallel ::
  "unsigned \<Rightarrow> (unsigned \<Rightarrow> unsigned \<Rightarrow> 's \<Rightarrow> error + 's) \<Rightarrow> 's \<Rightarrow> error + 's" where
  "omp_parallel granted block s =
     team (block granted) (map of_nat [0..<unat granted]) s"

subsection \<open>\<open>std::vector\<close> operations\<close>

text \<open>\<open>v.resize(n, x)\<close> truncates to \<open>n\<close> elements or pads with copies of \<open>x\<close>.\<close>

definition resize :: "'a list \<Rightarrow> nat \<Rightarrow> 'a \<Rightarrow> 'a list" where
  "resize v n x = take n v @ replicate (n - length v) x"

text \<open>\<open>v[m] = x\<close>; out of range is undefined behaviour in C++.\<close>

definition store :: "'a list \<Rightarrow> unsigned \<Rightarrow> 'a \<Rightarrow> error + 'a list" where
  "store v m x = (if unat m < length v then Inr (v[unat m := x]) else Inl IndexOutOfRange)"

subsection \<open>The dispatcher\<close>

text \<open>
  \<open>Run\<close> returns nothing; what it does is what \<open>func\<close> does. The callback is a state
  transformer on the caller's state \<open>'s\<close> (the extra arguments are part of it).
\<close>

definition Run ::
  "uint64 \<Rightarrow> unsigned \<Rightarrow> unsigned \<Rightarrow> uint64 \<Rightarrow>
   (unsigned \<Rightarrow> unsigned \<Rightarrow> uint64 \<Rightarrow> 's \<Rightarrow> 's) \<Rightarrow> 's \<Rightarrow> error + 's" where
  "Run MIN_SIZE granted num_threads sz func s =
     (if num_threads > 1 \<and> sz \<ge> MIN_SIZE then
        omp_parallel granted
          (\<lambda>n m s.
             case GetIndex0 MIN_SIZE sz n m of Inl e \<Rightarrow> Inl e | Inr i0 \<Rightarrow>
            (case GetIndex1 MIN_SIZE sz n m of Inl e \<Rightarrow> Inl e | Inr i1 \<Rightarrow>
             Inr (for_loop i0 i1 (\<lambda>i. func n m i) s)))
          s
      else Inr (for_loop 0 sz (\<lambda>i. func 1 0 i) s))"

subsection \<open>The reduce combiner\<close>

text \<open>
  \<open>func\<close> returns a value of \<open>Op::result_type\<close>, a type with a literal \<open>0\<close>; \<open>op\<close>
  combines two of them. Both are pure here. The state of the parallel region is the
  vector \<open>partial_results\<close>.
\<close>

definition RunReduceP ::
  "uint64 \<Rightarrow> unsigned \<Rightarrow> unsigned \<Rightarrow> uint64 \<Rightarrow>
   (unsigned \<Rightarrow> unsigned \<Rightarrow> uint64 \<Rightarrow> 'a) \<Rightarrow> ('a \<Rightarrow> 'a \<Rightarrow> 'a) \<Rightarrow> error + ('a::zero) list" where
  "RunReduceP MIN_SIZE granted num_threads sz func op =
     (if num_threads > 1 \<and> sz \<ge> MIN_SIZE then
        omp_parallel granted
          (\<lambda>n m partial_results.
             case GetIndex0 MIN_SIZE sz n m of Inl e \<Rightarrow> Inl e | Inr i0 \<Rightarrow>
            (case GetIndex1 MIN_SIZE sz n m of Inl e \<Rightarrow> Inl e | Inr i1 \<Rightarrow>
             store partial_results m
               (for_loop i0 i1 (\<lambda>i partial_result. op partial_result (func n m i)) 0)))
          (resize [] (unat num_threads) 0)
      else if num_threads > 0 then
        Inr (resize [] 1 (for_loop 0 sz (\<lambda>i result. op result (func 1 0 i)) 0))
      else Inr [])"

definition RunReduce ::
  "uint64 \<Rightarrow> unsigned \<Rightarrow> unsigned \<Rightarrow> uint64 \<Rightarrow>
   (unsigned \<Rightarrow> unsigned \<Rightarrow> uint64 \<Rightarrow> 'a) \<Rightarrow> ('a \<Rightarrow> 'a \<Rightarrow> 'a) \<Rightarrow> error + ('a::zero)" where
  "RunReduce MIN_SIZE granted num_threads sz func op =
     (case RunReduceP MIN_SIZE granted num_threads sz func op of
        Inl e \<Rightarrow> Inl e
      | Inr partial_results \<Rightarrow>
          Inr (fold (\<lambda>partial_result result. op result partial_result) partial_results 0))"

text \<open>
  The same function with callbacks that act on the caller's state \<open>'s\<close>, as \<open>func\<close> does
  in \<open>Run\<close>: \<open>func\<close> returns its value and the new state, and so does \<open>op\<close>. In
  \<open>op(partial_result, func(n, m, i, args...))\<close> the argument \<open>func(...)\<close> is evaluated
  before \<open>op\<close> is called. The state of the parallel region is the vector together with
  the caller's state.
\<close>

definition reduce_step ::
  "(uint64 \<Rightarrow> 's \<Rightarrow> 'a \<times> 's) \<Rightarrow> ('a \<Rightarrow> 'a \<Rightarrow> 's \<Rightarrow> 'a \<times> 's) \<Rightarrow> uint64 \<Rightarrow> 'a \<times> 's \<Rightarrow> 'a \<times> 's" where
  "reduce_step f op i = (\<lambda>(acc, s). case f i s of (v, s') \<Rightarrow> op acc v s')"

definition RunReduceP_effects ::
  "uint64 \<Rightarrow> unsigned \<Rightarrow> unsigned \<Rightarrow> uint64 \<Rightarrow>
   (unsigned \<Rightarrow> unsigned \<Rightarrow> uint64 \<Rightarrow> 's \<Rightarrow> 'a \<times> 's) \<Rightarrow> ('a \<Rightarrow> 'a \<Rightarrow> 's \<Rightarrow> 'a \<times> 's) \<Rightarrow>
   's \<Rightarrow> error + (('a::zero) list \<times> 's)" where
  "RunReduceP_effects MIN_SIZE granted num_threads sz func op s =
     (if num_threads > 1 \<and> sz \<ge> MIN_SIZE then
        omp_parallel granted
          (\<lambda>n m (partial_results, s).
             case GetIndex0 MIN_SIZE sz n m of Inl e \<Rightarrow> Inl e | Inr i0 \<Rightarrow>
            (case GetIndex1 MIN_SIZE sz n m of Inl e \<Rightarrow> Inl e | Inr i1 \<Rightarrow>
            (case for_loop i0 i1 (reduce_step (func n m) op) (0, s) of
               (partial_result, s') \<Rightarrow>
                 (case store partial_results m partial_result of
                    Inl e \<Rightarrow> Inl e
                  | Inr v \<Rightarrow> Inr (v, s')))))
          (resize [] (unat num_threads) 0, s)
      else if num_threads > 0 then
        (case for_loop 0 sz (reduce_step (func 1 0) op) (0, s) of
           (result, s') \<Rightarrow> Inr (resize [] 1 result, s'))
      else Inr ([], s))"

subsection \<open>Reference notions\<close>

text \<open>The indices \<open>i0, i0 + 1, ..., i1 - 1\<close> in increasing order (none when \<open>i1 \<le> i0\<close>).\<close>

definition index_range :: "uint64 \<Rightarrow> uint64 \<Rightarrow> uint64 list" where
  "index_range i0 i1 = map of_nat [unat i0..<unat i1]"

text \<open>
  The sequential fold of the specification: \<open>op\<close> folded over \<open>f\<close> applied to every
  index of \<open>[0, size)\<close> in increasing order, starting from 0.
\<close>

definition seq_fold :: "('a \<Rightarrow> 'a \<Rightarrow> 'a) \<Rightarrow> (uint64 \<Rightarrow> 'a) \<Rightarrow> uint64 \<Rightarrow> ('a::zero)" where
  "seq_fold op f sz = fold (\<lambda>i acc. op acc (f i)) (index_range 0 sz) 0"

text \<open>
  The range of worker \<open>thread_id\<close> as a set of indices: \<open>[GetIndex0, GetIndex1)\<close>, and no
  index when the partitioner fails.
\<close>

definition worker_range :: "uint64 \<Rightarrow> uint64 \<Rightarrow> unsigned \<Rightarrow> unsigned \<Rightarrow> uint64 set" where
  "worker_range MIN_SIZE sz num_threads thread_id =
     (case GetIndex0 MIN_SIZE sz num_threads thread_id of
        Inl e \<Rightarrow> {}
      | Inr i0 \<Rightarrow>
         (case GetIndex1 MIN_SIZE sz num_threads thread_id of
            Inl e \<Rightarrow> {}
          | Inr i1 \<Rightarrow> {i0..<i1}))"

text \<open>
  The reduce combiner as the specification words it (sections 3 and 4.3): a worker's
  partial result is its accumulator, seeded at the identity value \<open>e\<close> of the combine
  operation and folded with the work function's value on every index of its range in
  increasing order; the final result folds the partial results in the order of the worker
  ids, starting from \<open>e\<close>.
\<close>

definition seeded_partial :: "'a \<Rightarrow> ('a \<Rightarrow> 'a \<Rightarrow> 'a) \<Rightarrow> (uint64 \<Rightarrow> 'a) \<Rightarrow> uint64 list \<Rightarrow> 'a" where
  "seeded_partial e op f idxs = fold (\<lambda>i acc. op acc (f i)) idxs e"

definition seeded_total :: "'a \<Rightarrow> ('a \<Rightarrow> 'a \<Rightarrow> 'a) \<Rightarrow> 'a list \<Rightarrow> 'a" where
  "seeded_total e op partials = fold (\<lambda>partial_result result. op result partial_result) partials e"

section \<open>Loops as folds\<close>

lemma unat_succ_uint64:
  fixes i i1 :: uint64
  assumes "i < i1"
  shows "unat (i + 1) = Suc (unat i)"
proof -
  have "unat i < unat i1" using assms by (simp add: word_less_nat_alt)
  moreover have "unat i1 < 2 ^ 64" using unsigned_less [of i1, where 'a = nat] by simp
  ultimately have "unat i + 1 < 2 ^ 64" by linarith
  then show ?thesis by (simp add: unat_word_ariths)
qed

lemma index_range_step:
  assumes "i < i1"
  shows "index_range i i1 = i # index_range (i + 1) i1"
proof -
  have lt: "unat i < unat i1" using assms by (simp add: word_less_nat_alt)
  have "[unat i..<unat i1] = unat i # [Suc (unat i)..<unat i1]"
    using lt by (rule upt_conv_Cons)
  then show ?thesis
    by (simp add: index_range_def unat_succ_uint64 [OF assms])
qed

lemma index_range_empty: "\<not> i < i1 \<Longrightarrow> index_range i i1 = []"
  by (simp add: index_range_def word_less_nat_alt)

lemma for_loop_fold: "for_loop i i1 body s = fold body (index_range i i1) s"
proof (induction i i1 body s rule: for_loop.induct)
  case (1 i i1 body s)
  show ?case
  proof (cases "i < i1")
    case True
    then show ?thesis
      using "1.IH" by (subst for_loop.simps) (simp add: index_range_step)
  next
    case False
    then show ?thesis
      by (subst for_loop.simps) (simp add: index_range_empty)
  qed
qed

lemma unsigned_ge_1_pos: "(1::unsigned) \<le> n \<Longrightarrow> 0 < n"
  by (metis word_greater_zero_iff word_le_0_iff zero_neq_one)

section \<open>The reduce combiner without workers, and on the serial path\<close>

text \<open>
  With callbacks that leave the caller's state alone, the combiner with effects returns
  what \<open>RunReduceP\<close> returns, and the state unchanged.
\<close>

lemma fold_reduce_step_pure:
  "fold (reduce_step (\<lambda>i s. (f i, s)) (\<lambda>a b s. (op a b, s))) xs (acc, s)
   = (fold (\<lambda>i acc. op acc (f i)) xs acc, s)"
  by (induction xs arbitrary: acc) (simp_all add: reduce_step_def)

lemma team_lifted:
  assumes "\<And>m v. block' m (v, s) = (case block m v of Inl e \<Rightarrow> Inl e | Inr v' \<Rightarrow> Inr (v', s))"
  shows "team block' ms (v, s) = (case team block ms v of Inl e \<Rightarrow> Inl e | Inr v' \<Rightarrow> Inr (v', s))"
proof (induction ms arbitrary: v)
  case Nil
  show ?case by simp
next
  case (Cons m ms)
  show ?case
  proof (cases "block m v")
    case (Inl e)
    then show ?thesis by (simp add: assms)
  next
    case (Inr v')
    then show ?thesis using Cons.IH [of v'] by (simp add: assms)
  qed
qed

lemma RunReduceP_effects_pure:
  "RunReduceP_effects MIN_SIZE granted num_threads sz
      (\<lambda>n m i s. (func n m i, s)) (\<lambda>a b s. (op a b, s)) s
   = (case RunReduceP MIN_SIZE granted num_threads sz func op of
        Inl e \<Rightarrow> Inl e | Inr partial_results \<Rightarrow> Inr (partial_results, s))"
proof (cases "num_threads > 1 \<and> sz \<ge> MIN_SIZE")
  case True
  let ?block = "\<lambda>(m :: unsigned) partial_results.
     case GetIndex0 MIN_SIZE sz granted m of Inl e \<Rightarrow> Inl e | Inr i0 \<Rightarrow>
    (case GetIndex1 MIN_SIZE sz granted m of Inl e \<Rightarrow> Inl e | Inr i1 \<Rightarrow>
     store partial_results m
       (for_loop i0 i1 (\<lambda>i partial_result. op partial_result (func granted m i)) 0))"
  let ?block' = "\<lambda>(m :: unsigned) (partial_results, s).
     case GetIndex0 MIN_SIZE sz granted m of Inl e \<Rightarrow> Inl e | Inr i0 \<Rightarrow>
    (case GetIndex1 MIN_SIZE sz granted m of Inl e \<Rightarrow> Inl e | Inr i1 \<Rightarrow>
    (case for_loop i0 i1 (reduce_step (\<lambda>i s. (func granted m i, s)) (\<lambda>a b s. (op a b, s))) (0, s) of
       (partial_result, s') \<Rightarrow>
         (case store partial_results m partial_result of
            Inl e \<Rightarrow> Inl e
          | Inr v \<Rightarrow> Inr (v, s'))))"
  have "team ?block' ms (v, s) = (case team ?block ms v of Inl e \<Rightarrow> Inl e | Inr v' \<Rightarrow> Inr (v', s))"
    for ms v
    by (rule team_lifted)
      (simp add: for_loop_fold fold_reduce_step_pure split: sum.splits)
  then show ?thesis
    using True by (simp add: RunReduceP_effects_def RunReduceP_def omp_parallel_def)
next
  case False
  then have "RunReduceP_effects MIN_SIZE granted num_threads sz
      (\<lambda>n m i s. (func n m i, s)) (\<lambda>a b s. (op a b, s)) s
    = (if num_threads > 0 then
        (case for_loop 0 sz (reduce_step (\<lambda>i s. (func 1 0 i, s)) (\<lambda>a b s. (op a b, s))) (0, s) of
           (result, s') \<Rightarrow> Inr (resize [] 1 result, s'))
      else Inr ([], s))"
    unfolding RunReduceP_effects_def by (simp only: if_False)
  moreover from False have "RunReduceP MIN_SIZE granted num_threads sz func op
    = (if num_threads > 0 then
        Inr (resize [] 1 (for_loop 0 sz (\<lambda>i result. op result (func 1 0 i)) 0))
      else Inr [])"
    unfolding RunReduceP_def by (simp only: if_False)
  ultimately show ?thesis
    by (simp add: for_loop_fold fold_reduce_step_pure)
qed

text \<open>
  Claim C6. With a requested worker count of 0, \<open>RunReduceP\<close> enters neither the parallel
  nor the serial branch. Whatever the size is and whatever the work function and the
  combine operation do to the caller's state, the returned vector of partial results is
  empty and the state is the one the call started from: neither callback is invoked.
\<close>

theorem RunReduceP_zero_workers:
  "RunReduceP_effects MIN_SIZE granted 0 sz func op s = Inr ([], s) \<and>
   RunReduceP MIN_SIZE granted 0 sz work_fn combine_op = Inr []"
  by (simp add: RunReduceP_effects_def RunReduceP_def)

text \<open>
  With one worker and two indices the same callbacks, counting their invocations, are
  called four times: the state does record every call.
\<close>

lemma RunReduceP_effects_counts_calls:
  "RunReduceP_effects 1024 granted 1 2
     (\<lambda>n m i (c :: nat). (uint i, c + 1)) (\<lambda>a b c. (a + b, c + 1)) 0 = Inr ([1], 4)"
proof -
  have "index_range 0 (2::uint64) = [0, 1]" by (simp add: index_range_def upt_rec)
  then show ?thesis
    by (simp add: RunReduceP_effects_def for_loop_fold reduce_step_def resize_def)
qed

text \<open>
  Claim C7. On the serial fallback path (at least one worker requested, and either exactly
  one requested or a size below \<open>MIN_SIZE\<close>) \<open>RunReduceP\<close> returns exactly one partial
  result: the sequential fold of \<open>op\<close> over \<open>func(1, 0, i)\<close> for the indices of
  \<open>[0, size)\<close>, starting from 0.
\<close>

theorem RunReduceP_serial:
  assumes "num_threads \<ge> 1" and "num_threads = 1 \<or> sz < MIN_SIZE"
  shows "RunReduceP MIN_SIZE granted num_threads sz func op = Inr [seq_fold op (func 1 0) sz]"
proof -
  have par: "\<not> (num_threads > 1 \<and> sz \<ge> MIN_SIZE)"
    using assms(2) by auto
  have pos: "num_threads > 0"
    using assms(1) by (rule unsigned_ge_1_pos)
  have "RunReduceP MIN_SIZE granted num_threads sz func op =
      Inr (resize [] 1 (for_loop 0 sz (\<lambda>i result. op result (func 1 0 i)) 0))"
    unfolding RunReduceP_def using par pos by (simp only: if_False if_True)
  then show ?thesis
    by (simp add: resize_def seq_fold_def for_loop_fold)
qed

theorem RunReduceP_serial_witness:
  "(1::unsigned) \<le> 4 \<and> ((4::unsigned) = 1 \<or> (3::uint64) < 1024) \<and>
   RunReduceP 1024 2 4 3 (\<lambda>n m i. uint i) (+) = Inr [3]"
proof -
  have v: "seq_fold (+) (\<lambda>i::uint64. uint i) 3 = 3" by code_simp
  show ?thesis
    using RunReduceP_serial [of 4 3 1024 2 "\<lambda>n m i. uint i" "(+)"] v by simp
qed

section \<open>The partitioner in exact arithmetic\<close>

lemma unat_unsigned_lt: "unat (m :: unsigned) < 2 ^ 32"
  using unsigned_less [of m, where 'a = nat] by simp

lemma unat_uint64_lt: "unat (w :: uint64) < 2 ^ 64"
  using unsigned_less [of w, where 'a = nat] by simp

lemma unat_ucast_unsigned: "unat (ucast (m :: unsigned) :: uint64) = unat m"
proof -
  have "unat m < 2 ^ 64" using unat_unsigned_lt [of m] by simp
  then show ?thesis by (simp add: unsigned_ucast_eq take_bit_nat_eq_self)
qed

lemma unat_succ_unsigned:
  fixes m n :: unsigned
  assumes "m < n"
  shows "unat (m + 1) = Suc (unat m)"
proof -
  have "unat m < unat n" using assms by (simp add: word_less_nat_alt)
  moreover have "unat n < 2 ^ 32" by (rule unat_unsigned_lt)
  ultimately have "unat m + 1 < 2 ^ 32" by linarith
  then show ?thesis by (simp add: unat_word_ariths)
qed

text \<open>The value of the partition expression, read as a natural number.\<close>

lemma unat_partition_expr:
  fixes sz :: uint64 and n k :: unsigned
  shows "unat (sz * ucast k div ucast n) = (unat sz * unat k mod 2 ^ 64) div unat n"
  by (simp add: unat_div unat_word_ariths unat_ucast_unsigned)

lemma unat_GetIndex0:
  assumes "MIN_SIZE \<le> sz" and "num_threads \<noteq> 0"
  shows "\<exists>v. GetIndex0 MIN_SIZE sz num_threads thread_id = Inr v \<and>
             unat v = (unat sz * unat thread_id mod 2 ^ 64) div unat num_threads"
  using assms by (simp add: GetIndex0_def unat_partition_expr)

lemma unat_GetIndex1:
  assumes "MIN_SIZE \<le> sz" and "thread_id < num_threads"
  shows "\<exists>v. GetIndex1 MIN_SIZE sz num_threads thread_id = Inr v \<and>
             unat v = (unat sz * Suc (unat thread_id) mod 2 ^ 64) div unat num_threads"
proof -
  have "num_threads \<noteq> 0" using assms(2) by auto
  then show ?thesis
    using assms by (simp add: GetIndex1_def unat_partition_expr unat_succ_unsigned)
qed

lemma wrapped_quotient_less:
  fixes p n :: nat
  assumes "2 ^ 64 \<le> p" and "0 < n" and "n < 2 ^ 32"
  shows "(p mod 2 ^ 64) div n < p div n"
proof -
  define r where "r = p mod 2 ^ 64"
  define q where "q = p div 2 ^ 64"
  have p: "p = q * 2 ^ 64 + r" by (simp add: q_def r_def)
  have "q \<noteq> 0" using assms(1) by (simp add: q_def)
  then have "1 * (2::nat) ^ 64 \<le> q * 2 ^ 64" by (intro mult_le_mono1) simp
  then have "r + 2 ^ 64 \<le> p" using p by simp
  moreover have "n \<le> 2 ^ 64" using assms(3) by simp
  ultimately have "r + n \<le> p" by linarith
  then have "(r + n) div n \<le> p div n" by (rule div_le_mono)
  moreover have "(r + n) div n = Suc (r div n)"
    using assms(2) div_add_self2 [of n r] by simp
  ultimately show ?thesis by (simp add: r_def)
qed

lemma GetIndex0_value:
  assumes "MIN_SIZE \<le> sz" and "num_threads \<noteq> 0"
  obtains v where "GetIndex0 MIN_SIZE sz num_threads thread_id = Inr v"
    and "unat v = (unat sz * unat thread_id mod 2 ^ 64) div unat num_threads"
  using unat_GetIndex0 [OF assms] by blast

lemma GetIndex1_value:
  assumes "MIN_SIZE \<le> sz" and "thread_id < num_threads"
  obtains v where "GetIndex1 MIN_SIZE sz num_threads thread_id = Inr v"
    and "unat v = (unat sz * Suc (unat thread_id) mod 2 ^ 64) div unat num_threads"
  using unat_GetIndex1 [OF assms] by blast

lemma wrapped_quotient_eq_iff:
  fixes p n :: nat
  assumes "0 < n" and "n < 2 ^ 32"
  shows "(p mod 2 ^ 64) div n = p div n \<longleftrightarrow> p < 2 ^ 64"
proof
  assume eq: "(p mod 2 ^ 64) div n = p div n"
  show "p < 2 ^ 64"
  proof (rule ccontr)
    assume "\<not> p < 2 ^ 64"
    then have "2 ^ 64 \<le> p" by simp
    from wrapped_quotient_less [OF this assms] eq show False by simp
  qed
next
  assume "p < 2 ^ 64"
  then show "(p mod 2 ^ 64) div n = p div n" by simp
qed

text \<open>
  Claim C8, as amended. For a size of at least \<open>MIN_SIZE\<close> and a worker id below the worker
  count, \<open>GetIndex0\<close> returns \<open>floor(size * id / count)\<close> exactly when \<open>size * id\<close>
  is below \<open>2^64\<close>, and \<open>GetIndex1\<close> returns \<open>floor(size * (id + 1) / count)\<close> exactly
  when \<open>size * (id + 1)\<close> is below \<open>2^64\<close>: the product is taken in \<open>uint64_t\<close> and
  wraps around beyond that.
\<close>

theorem GetIndex_exact_iff:
  assumes "MIN_SIZE \<le> sz" and "thread_id < num_threads"
  shows "(\<exists>v0 v1. GetIndex0 MIN_SIZE sz num_threads thread_id = Inr v0 \<and>
           GetIndex1 MIN_SIZE sz num_threads thread_id = Inr v1 \<and>
           (unat v0 = unat sz * unat thread_id div unat num_threads
              \<longleftrightarrow> unat sz * unat thread_id < 2 ^ 64) \<and>
           (unat v1 = unat sz * (unat thread_id + 1) div unat num_threads
              \<longleftrightarrow> unat sz * (unat thread_id + 1) < 2 ^ 64))"
proof -
  have nz: "num_threads \<noteq> 0" using assms(2) by auto
  then have pos: "0 < unat num_threads" by (simp add: unat_gt_0)
  have lt: "unat num_threads < 2 ^ 32" by (rule unat_unsigned_lt)
  obtain v0 where v0: "GetIndex0 MIN_SIZE sz num_threads thread_id = Inr v0"
    "unat v0 = (unat sz * unat thread_id mod 2 ^ 64) div unat num_threads"
    using assms(1) nz by (rule GetIndex0_value)
  obtain v1 where v1: "GetIndex1 MIN_SIZE sz num_threads thread_id = Inr v1"
    "unat v1 = (unat sz * Suc (unat thread_id) mod 2 ^ 64) div unat num_threads"
    using assms by (rule GetIndex1_value)
  show ?thesis
    using v0 v1 wrapped_quotient_eq_iff [OF pos lt] by simp
qed

theorem GetIndex_exact_iff_witness:
  "(1024::uint64) \<le> 2048 \<and> (1::unsigned) < 4 \<and>
   GetIndex0 1024 2048 4 1 = Inr 512 \<and> GetIndex1 1024 2048 4 1 = Inr 1024 \<and>
   unat (2048::uint64) * unat (1::unsigned) div unat (4::unsigned) = 512 \<and>
   unat (2048::uint64) * (unat (1::unsigned) + 1) div unat (4::unsigned) = 1024"
  using GetIndex_exact_iff [of 1024 2048 1 4]
  by (simp add: GetIndex0_def GetIndex1_def)

text \<open>
  With size \<open>2^63\<close> and 4 workers the product for worker 2 is \<open>2^64\<close>, which is 0 in
  \<open>uint64_t\<close>: its range starts at 0 and the range of worker 1 ends at 0, where the exact
  quotient is \<open>2^62\<close> in both cases.
\<close>

theorem GetIndex_wraps_counterexample:
  "(1024::uint64) \<le> 2 ^ 63 \<and> (2::unsigned) < 4 \<and>
   GetIndex0 1024 (2 ^ 63) 4 2 = Inr 0 \<and>
   unat (2 ^ 63 :: uint64) * unat (2::unsigned) div unat (4::unsigned) = 2 ^ 62 \<and>
   (1::unsigned) < 4 \<and>
   GetIndex1 1024 (2 ^ 63) 4 1 = Inr 0 \<and>
   unat (2 ^ 63 :: uint64) * (unat (1::unsigned) + 1) div unat (4::unsigned) = 2 ^ 62"
  by (simp add: GetIndex0_def GetIndex1_def)




text \<open>
  Claim C5, as amended. For a size of at least \<open>MIN_SIZE\<close>, worker ids \<open>a < b\<close> below the
  worker count, and \<open>size * b\<close> below \<open>2^64\<close>, the range of worker \<open>a\<close> ends at or before
  the start of the range of worker \<open>b\<close>.
\<close>

theorem GetIndex_monotone:
  assumes "MIN_SIZE \<le> sz" and "a < b" and "b < num_threads"
    and "unat sz * unat b < 2 ^ 64"
  shows "\<exists>e s. GetIndex1 MIN_SIZE sz num_threads a = Inr e \<and>
               GetIndex0 MIN_SIZE sz num_threads b = Inr s \<and> e \<le> s"
proof -
  have nz: "num_threads \<noteq> 0" using assms(3) by auto
  have an: "a < num_threads" using assms(2,3) by simp
  obtain s where s: "GetIndex0 MIN_SIZE sz num_threads b = Inr s"
    "unat s = (unat sz * unat b mod 2 ^ 64) div unat num_threads"
    using assms(1) nz by (rule GetIndex0_value)
  obtain e where e: "GetIndex1 MIN_SIZE sz num_threads a = Inr e"
    "unat e = (unat sz * Suc (unat a) mod 2 ^ 64) div unat num_threads"
    using assms(1) an by (rule GetIndex1_value)
  have "unat a < unat b" using assms(2) by (simp add: word_less_nat_alt)
  then have "Suc (unat a) \<le> unat b" by simp
  then have le: "unat sz * Suc (unat a) \<le> unat sz * unat b" by (rule mult_le_mono2)
  then have "unat sz * Suc (unat a) < 2 ^ 64" using assms(4) by linarith
  then have "unat e = unat sz * Suc (unat a) div unat num_threads" using e(2) by simp
  moreover have "unat s = unat sz * unat b div unat num_threads" using s(2) assms(4) by simp
  ultimately have "unat e \<le> unat s" using le by (simp add: div_le_mono)
  then have "e \<le> s" by (simp add: word_le_nat_alt)
  then show ?thesis using e(1) s(1) by simp
qed

theorem GetIndex_monotone_witness:
  "(1024::uint64) \<le> 2048 \<and> (0::unsigned) < 2 \<and> (2::unsigned) < 4 \<and>
   unat (2048::uint64) * unat (2::unsigned) < 2 ^ 64 \<and>
   GetIndex1 1024 2048 4 0 = Inr 512 \<and> GetIndex0 1024 2048 4 2 = Inr 1024 \<and>
   (512::uint64) \<le> 1024"
  using GetIndex_monotone [of 1024 2048 0 2 4]
  by (simp add: GetIndex0_def GetIndex1_def)

text \<open>
  Below the threshold worker 0 ends at 3 and worker 1 starts at 0; with size \<open>2^63\<close> and 4
  workers, worker 0 ends at \<open>2^61\<close> and worker 2 starts at 0.
\<close>

theorem GetIndex_monotone_counterexample:
  "(0::unsigned) < 1 \<and> (1::unsigned) < 2 \<and>
   GetIndex1 1024 3 2 0 = Inr 3 \<and> GetIndex0 1024 3 2 1 = Inr 0 \<and> \<not> (3::uint64) \<le> 0 \<and>
   (0::unsigned) < 2 \<and> (2::unsigned) < 4 \<and>
   GetIndex1 1024 (2 ^ 63) 4 0 = Inr (2 ^ 61) \<and> GetIndex0 1024 (2 ^ 63) 4 2 = Inr 0 \<and>
   \<not> (2 ^ 61 :: uint64) \<le> 0"
  by (simp add: GetIndex0_def GetIndex1_def)

section \<open>Division by zero\<close>

lemma team_no_division_by_zero:
  assumes "\<And>m s. m \<in> set ms \<Longrightarrow> block m s \<noteq> Inl DivisionByZero"
  shows "team block ms s \<noteq> Inl DivisionByZero"
  using assms
proof (induction ms arbitrary: s)
  case Nil
  show ?case by simp
next
  case (Cons m ms)
  have hd: "block m s \<noteq> Inl DivisionByZero" using Cons.prems by simp
  show ?case
  proof (cases "block m s")
    case (Inl e)
    then show ?thesis using hd by simp
  next
    case (Inr s')
    have "team block ms s' \<noteq> Inl DivisionByZero"
      using Cons.prems by (intro Cons.IH) simp
    then show ?thesis using Inr by simp
  qed
qed

lemma member_id_granted:
  assumes "m \<in> set (map of_nat [0..<unat (granted :: unsigned)])"
  shows "granted \<noteq> 0"
  using assms by auto

lemma GetIndex0_Inr: "num_threads \<noteq> 0 \<Longrightarrow> \<exists>v. GetIndex0 MIN_SIZE sz num_threads thread_id = Inr v"
  by (simp add: GetIndex0_def)

lemma GetIndex1_Inr: "num_threads \<noteq> 0 \<Longrightarrow> \<exists>v. GetIndex1 MIN_SIZE sz num_threads thread_id = Inr v"
  by (simp add: GetIndex1_def)

lemma store_no_division_by_zero: "store v m x \<noteq> Inl DivisionByZero"
  by (simp add: store_def)

text \<open>
  Claim C10. On the branch for sizes of at least \<open>MIN_SIZE\<close>, \<open>GetIndex0\<close> and
  \<open>GetIndex1\<close> divide by \<open>num_threads\<close> unguarded: with \<open>num_threads = 0\<close> both fail with a
  division by zero. With \<open>num_threads\<close> at least 1 both return a value. \<open>Run\<close> and
  \<open>RunReduceP\<close> call them only from a member of the team, with the team's size, which is
  then at least 1: neither ever fails with a division by zero, whatever the requested and
  the granted worker counts are.
\<close>

theorem division_by_zero_unreachable:
  "(MIN_SIZE \<le> sz \<longrightarrow>
      GetIndex0 MIN_SIZE sz 0 thread_id = Inl DivisionByZero \<and>
      GetIndex1 MIN_SIZE sz 0 thread_id = Inl DivisionByZero) \<and>
   (num_threads \<ge> 1 \<longrightarrow>
      (\<exists>v. GetIndex0 MIN_SIZE sz num_threads thread_id = Inr v) \<and>
      (\<exists>v. GetIndex1 MIN_SIZE sz num_threads thread_id = Inr v)) \<and>
   Run MIN_SIZE granted requested sz func s \<noteq> Inl DivisionByZero \<and>
   RunReduceP MIN_SIZE granted requested sz work_fn op \<noteq> Inl DivisionByZero"
proof (intro conjI impI)
  assume "MIN_SIZE \<le> sz"
  then show "GetIndex0 MIN_SIZE sz 0 thread_id = Inl DivisionByZero"
    and "GetIndex1 MIN_SIZE sz 0 thread_id = Inl DivisionByZero"
    by (simp_all add: GetIndex0_def GetIndex1_def)
next
  assume "num_threads \<ge> 1"
  then have nz: "num_threads \<noteq> 0" using unsigned_ge_1_pos by auto
  show "\<exists>v. GetIndex0 MIN_SIZE sz num_threads thread_id = Inr v"
    using nz by (rule GetIndex0_Inr)
  show "\<exists>v. GetIndex1 MIN_SIZE sz num_threads thread_id = Inr v"
    using nz by (rule GetIndex1_Inr)
next
  let ?block = "\<lambda>n m s.
     case GetIndex0 MIN_SIZE sz n m of Inl e \<Rightarrow> Inl e | Inr i0 \<Rightarrow>
    (case GetIndex1 MIN_SIZE sz n m of Inl e \<Rightarrow> Inl e | Inr i1 \<Rightarrow>
     Inr (for_loop i0 i1 (\<lambda>i. func n m i) s))"
  have "omp_parallel granted ?block s \<noteq> Inl DivisionByZero"
    unfolding omp_parallel_def
  proof (rule team_no_division_by_zero)
    fix m :: unsigned and s'
    assume "m \<in> set (map of_nat [0..<unat granted])"
    then have nz: "granted \<noteq> 0" by (rule member_id_granted)
    obtain i0 i1 where "GetIndex0 MIN_SIZE sz granted m = Inr i0"
      and "GetIndex1 MIN_SIZE sz granted m = Inr i1"
      using GetIndex0_Inr [OF nz] GetIndex1_Inr [OF nz] by blast
    then show "?block granted m s' \<noteq> Inl DivisionByZero" by simp
  qed
  then show "Run MIN_SIZE granted requested sz func s \<noteq> Inl DivisionByZero"
    by (simp add: Run_def)
next
  let ?block = "\<lambda>n m partial_results.
     case GetIndex0 MIN_SIZE sz n m of Inl e \<Rightarrow> Inl e | Inr i0 \<Rightarrow>
    (case GetIndex1 MIN_SIZE sz n m of Inl e \<Rightarrow> Inl e | Inr i1 \<Rightarrow>
     store partial_results m
       (for_loop i0 i1 (\<lambda>i partial_result. op partial_result (work_fn n m i)) 0))"
  have "omp_parallel granted ?block v \<noteq> Inl DivisionByZero" for v
    unfolding omp_parallel_def
  proof (rule team_no_division_by_zero)
    fix m :: unsigned and s'
    assume "m \<in> set (map of_nat [0..<unat granted])"
    then have nz: "granted \<noteq> 0" by (rule member_id_granted)
    obtain i0 i1 where "GetIndex0 MIN_SIZE sz granted m = Inr i0"
      and "GetIndex1 MIN_SIZE sz granted m = Inr i1"
      using GetIndex0_Inr [OF nz] GetIndex1_Inr [OF nz] by blast
    then show "?block granted m s' \<noteq> Inl DivisionByZero"
      by (simp add: store_no_division_by_zero)
  qed
  then show "RunReduceP MIN_SIZE granted requested sz work_fn op \<noteq> Inl DivisionByZero"
    by (simp add: RunReduceP_def)
qed

theorem division_by_zero_unreachable_witness:
  "(1024::uint64) \<le> 2048 \<and> (4::unsigned) \<ge> 1 \<and>
   GetIndex0 1024 2048 0 1 = Inl DivisionByZero \<and>
   GetIndex1 1024 2048 0 1 = Inl DivisionByZero \<and>
   (\<exists>v. GetIndex0 1024 2048 4 1 = Inr v) \<and>
   (\<exists>v. GetIndex1 1024 2048 4 1 = Inr v) \<and>
   Run 1024 3 4 2048 (\<lambda>n m i log. (n, m, i) # log) [] \<noteq> Inl DivisionByZero \<and>
   RunReduceP 1024 3 4 2048 (\<lambda>n m i. uint i) (+) \<noteq> Inl DivisionByZero"
  using division_by_zero_unreachable [of 1024 2048 1 4 3 4 "\<lambda>n m i log. (n, m, i) # log" "[]"
    "\<lambda>n m i. uint i" "(+)"]
  by simp

section \<open>The dispatcher without workers\<close>

text \<open>
  Claim C3 does not hold of the code. \<open>Run\<close> has no guard for a requested worker count of 0
  (the serial branch of \<open>RunReduceP\<close> has one, \<open>num_threads > 0\<close>): the call takes the
  serial branch and invokes \<open>func(1, 0, i)\<close> for every index of \<open>[0, size)\<close>. For size 1
  the work function is invoked once, on index 0.
\<close>

theorem Run_zero_workers_runs_serially:
  "Run MIN_SIZE granted 0 sz func s = Inr (fold (\<lambda>i. func 1 0 i) (index_range 0 sz) s) \<and>
   Run 1024 granted 0 1 func s = Inr (func 1 0 0 s)"
proof -
  have "index_range 0 (1::uint64) = [0]" by (simp add: index_range_def)
  then show ?thesis by (simp add: Run_def for_loop_fold)
qed

section \<open>The parallel region of the reduce combiner\<close>

lemma team_fold:
  assumes "\<And>k s. k \<in> set ks \<Longrightarrow> Inv s \<Longrightarrow>
             block (of_nat k) s = Inr (step k s) \<and> Inv (step k s)"
    and "Inv s"
  shows "team block (map of_nat ks) s = Inr (fold step ks s)"
  using assms
proof (induction ks arbitrary: s)
  case Nil
  show ?case by simp
next
  case (Cons k ks)
  have hd: "block (of_nat k) s = Inr (step k s)" and inv: "Inv (step k s)"
    using Cons.prems(1) [of k s] Cons.prems(2) by simp_all
  have "team block (map of_nat ks) (step k s) = Inr (fold step ks (step k s))"
    using Cons.prems(1) inv by (intro Cons.IH) simp_all
  then show ?case using hd by simp
qed

lemma fill_slots:
  assumes "G \<le> N"
  shows "fold (\<lambda>k v. v[k := Q k]) [0..<G] (replicate N z) = map Q [0..<G] @ replicate (N - G) z"
  using assms
proof (induction G)
  case 0
  show ?case by simp
next
  case (Suc G)
  then have G: "G < N" by simp
  have rep: "replicate (N - G) z = z # replicate (N - Suc G) z"
    using G by (metis Suc_diff_Suc replicate_Suc)
  have "fold (\<lambda>k v. v[k := Q k]) [0..<Suc G] (replicate N z)
      = (map Q [0..<G] @ replicate (N - G) z)[G := Q G]"
    using Suc.IH G by simp
  also have "\<dots> = map Q [0..<G] @ (Q G # replicate (N - Suc G) z)"
    by (simp add: list_update_append rep)
  finally show ?case by simp
qed

subsection \<open>Folding an associative operation with identity\<close>

lemma fold_from_acc:
  assumes assoc: "\<And>x y z. op (op x y) z = op x (op y z)"
    and idl: "\<And>x. op e x = x" and idr: "\<And>x. op x e = x"
  shows "fold (\<lambda>i acc. op acc (f i)) xs acc = op acc (fold (\<lambda>i acc. op acc (f i)) xs e)"
proof (induction xs arbitrary: acc)
  case Nil
  show ?case by (simp add: idr)
next
  case (Cons x xs)
  have "fold (\<lambda>i acc. op acc (f i)) (x # xs) acc = op (op acc (f x)) (fold (\<lambda>i acc. op acc (f i)) xs e)"
    using Cons.IH [of "op acc (f x)"] by simp
  also have "\<dots> = op acc (op (f x) (fold (\<lambda>i acc. op acc (f i)) xs e))"
    by (rule assoc)
  also have "\<dots> = op acc (fold (\<lambda>i acc. op acc (f i)) xs (f x))"
    using Cons.IH [of "f x"] by simp
  also have "\<dots> = op acc (fold (\<lambda>i acc. op acc (f i)) (x # xs) e)"
    by (simp add: idl)
  finally show ?case .
qed

lemma fold_partials:
  assumes assoc: "\<And>x y z. op (op x y) z = op x (op y z)"
    and idl: "\<And>x. op e x = x" and idr: "\<And>x. op x e = x"
  shows "fold (\<lambda>partial_result result. op result partial_result)
           (map (\<lambda>k. fold (\<lambda>i acc. op acc (f i)) (R k) e) ks) acc
         = fold (\<lambda>i acc. op acc (f i)) (concat (map R ks)) acc"
proof (induction ks arbitrary: acc)
  case Nil
  show ?case by simp
next
  case (Cons k ks)
  have "fold (\<lambda>i acc. op acc (f i)) (R k) acc = op acc (fold (\<lambda>i acc. op acc (f i)) (R k) e)"
    using assoc idl idr by (rule fold_from_acc)
  then show ?case using Cons.IH by simp
qed

lemma fold_unused_slots:
  assumes idr: "\<And>x. op x e = x"
  shows "fold (\<lambda>partial_result result. op result partial_result) (replicate j e) acc = acc"
  by (induction j) (simp_all add: idr)

subsection \<open>Consecutive ranges\<close>

lemma concat_consecutive:
  assumes "\<And>j k. j \<le> k \<Longrightarrow> a j \<le> (a k :: nat)"
  shows "concat (map (\<lambda>k. [a k..<a (Suc k)]) [0..<G]) = [a 0..<a G]"
proof (induction G)
  case 0
  show ?case by simp
next
  case (Suc G)
  have "a 0 \<le> a G" and "a G \<le> a (Suc G)" using assms by simp_all
  then have "[a 0..<a G] @ [a G..<a (Suc G)] = [a 0..<a (Suc G)]"
    by (metis le_Suc_ex upt_add_eq_append)
  then show ?case using Suc.IH by simp
qed

lemma partition_bound_mono:
  fixes S G :: nat
  shows "j \<le> k \<Longrightarrow> S * j div G \<le> S * k div G"
  by (simp add: div_le_mono)

lemma unat_member_id:
  assumes "k < unat (granted :: unsigned)"
  shows "unat (of_nat k :: unsigned) = k"
  using assms by (intro le_unat_uoi [of k granted]) simp

lemma member_bounds:
  assumes "MIN_SIZE \<le> sz" and "k < unat granted" and "unat sz * unat granted < 2 ^ 64"
  shows "\<exists>i0 i1. GetIndex0 MIN_SIZE sz granted (of_nat k) = Inr i0 \<and>
                 GetIndex1 MIN_SIZE sz granted (of_nat k) = Inr i1 \<and>
                 index_range i0 i1 =
                   map of_nat [unat sz * k div unat granted..<unat sz * Suc k div unat granted]"
proof -
  have k: "unat (of_nat k :: unsigned) = k" using assms(2) by (rule unat_member_id)
  then have lt: "(of_nat k :: unsigned) < granted" using assms(2) by (simp add: word_less_nat_alt)
  then have nz: "granted \<noteq> 0" by auto
  have "unat sz * Suc k \<le> unat sz * unat granted"
    using assms(2) by (intro mult_le_mono2) simp
  then have w1: "unat sz * Suc k < 2 ^ 64" using assms(3) by linarith
  then have w0: "unat sz * k < 2 ^ 64" by simp
  obtain i0 where i0: "GetIndex0 MIN_SIZE sz granted (of_nat k) = Inr i0"
    "unat i0 = (unat sz * unat (of_nat k :: unsigned) mod 2 ^ 64) div unat granted"
    using assms(1) nz by (rule GetIndex0_value)
  obtain i1 where i1: "GetIndex1 MIN_SIZE sz granted (of_nat k) = Inr i1"
    "unat i1 = (unat sz * Suc (unat (of_nat k :: unsigned)) mod 2 ^ 64) div unat granted"
    using assms(1) lt by (rule GetIndex1_value)
  have "unat i0 = unat sz * k div unat granted" using i0(2) k w0 by simp
  moreover have "unat i1 = unat sz * Suc k div unat granted" using i1(2) k w1 by simp
  ultimately have "index_range i0 i1 =
      map of_nat [unat sz * k div unat granted..<unat sz * Suc k div unat granted]"
    by (simp add: index_range_def)
  then show ?thesis using i0(1) i1(1) by blast
qed

lemma RunReduceP_parallel:
  assumes par: "1 < num_threads" "MIN_SIZE \<le> sz"
    and granted: "granted \<le> num_threads"
    and nowrap: "unat sz * unat granted < 2 ^ 64"
  shows "RunReduceP MIN_SIZE granted num_threads sz func op =
    Inr (map (\<lambda>k. fold (\<lambda>i acc. op acc (func granted (of_nat k) i))
                 (map of_nat [unat sz * k div unat granted..<unat sz * Suc k div unat granted]) 0)
           [0..<unat granted]
         @ replicate (unat num_threads - unat granted) 0)"
proof -
  let ?N = "unat num_threads" and ?G = "unat granted"
  let ?Q = "\<lambda>k. fold (\<lambda>i acc. op acc (func granted (of_nat k) i))
                 (map of_nat [unat sz * k div ?G..<unat sz * Suc k div ?G]) 0"
  let ?block = "\<lambda>(m :: unsigned) partial_results.
     case GetIndex0 MIN_SIZE sz granted m of Inl e \<Rightarrow> Inl e | Inr i0 \<Rightarrow>
    (case GetIndex1 MIN_SIZE sz granted m of Inl e \<Rightarrow> Inl e | Inr i1 \<Rightarrow>
     store partial_results m
       (for_loop i0 i1 (\<lambda>i partial_result. op partial_result (func granted m i)) 0))"
  have GN: "?G \<le> ?N" using granted by (simp add: word_le_nat_alt)
  have team: "team ?block (map of_nat [0..<?G]) (replicate ?N 0)
      = Inr (fold (\<lambda>k v. v[k := ?Q k]) [0..<?G] (replicate ?N 0))"
  proof (rule team_fold [where Inv = "\<lambda>v. length v = ?N"])
    fix k and v :: "'a list"
    assume "k \<in> set [0..<?G]" and len: "length v = ?N"
    then have k: "k < ?G" by simp
    obtain i0 i1 where b: "GetIndex0 MIN_SIZE sz granted (of_nat k) = Inr i0"
      "GetIndex1 MIN_SIZE sz granted (of_nat k) = Inr i1"
      "index_range i0 i1 = map of_nat [unat sz * k div ?G..<unat sz * Suc k div ?G]"
      using member_bounds [OF par(2) k nowrap] by blast
    have "unat (of_nat k :: unsigned) < length v"
      using k GN len by (simp add: unat_member_id)
    then have "?block (of_nat k) v = Inr (v[k := ?Q k])"
      using b k by (simp add: store_def for_loop_fold unat_member_id)
    then show "?block (of_nat k) v = Inr (v[k := ?Q k]) \<and> length (v[k := ?Q k]) = ?N"
      using len by simp
  next
    show "length (replicate ?N (0::'a)) = ?N" by simp
  qed
  have "RunReduceP MIN_SIZE granted num_threads sz func op
      = team ?block (map of_nat [0..<?G]) (replicate ?N 0)"
    using par by (simp add: RunReduceP_def omp_parallel_def resize_def)
  then show ?thesis using team fill_slots [OF GN] by simp
qed

section \<open>Reduction against the sequential fold\<close>

lemma RunReduce_serial:
  assumes "num_threads \<ge> 1" and "\<not> (1 < num_threads \<and> MIN_SIZE \<le> sz)"
    and idl: "\<And>x. op 0 x = x"
  shows "RunReduce MIN_SIZE granted num_threads sz func op = Inr (seq_fold op (func 1 0) sz)"
proof -
  have pos: "num_threads > 0" using assms(1) by (rule unsigned_ge_1_pos)
  have "RunReduceP MIN_SIZE granted num_threads sz func op =
      Inr (resize [] 1 (for_loop 0 sz (\<lambda>i result. op result (func 1 0 i)) 0))"
    unfolding RunReduceP_def using assms(2) pos by (simp only: if_False if_True)
  then show ?thesis
    by (simp add: RunReduce_def resize_def seq_fold_def for_loop_fold idl)
qed

lemma RunReduce_parallel:
  assumes assoc: "\<And>x y z. op (op x y) z = op x (op y z)"
    and idl: "\<And>x. op 0 x = x" and idr: "\<And>x. op x 0 = x"
    and idx: "\<And>n m i. func n m i = f i"
    and par: "1 < num_threads" "MIN_SIZE \<le> sz"
    and granted: "1 \<le> granted" "granted \<le> num_threads"
    and nowrap: "unat sz * unat granted < 2 ^ 64"
  shows "RunReduce MIN_SIZE granted num_threads sz func op = Inr (seq_fold op f sz)"
proof -
  let ?G = "unat granted" and ?S = "unat sz"
  let ?R = "\<lambda>k. map of_nat [?S * k div ?G..<?S * Suc k div ?G] :: uint64 list"
  let ?F = "\<lambda>xs acc. fold (\<lambda>i acc. op acc (f i)) xs acc"
  have "0 < granted" using granted(1) by (rule unsigned_ge_1_pos)
  then have G: "0 < ?G" by (simp add: unat_gt_0)
  have "concat (map ?R [0..<?G]) = map of_nat (concat (map (\<lambda>k. [?S * k div ?G..<?S * Suc k div ?G]) [0..<?G]))"
    by (simp add: map_concat comp_def)
  also have "\<dots> = map of_nat [?S * 0 div ?G..<?S * ?G div ?G]"
    by (subst concat_consecutive [where a = "\<lambda>k. ?S * k div ?G"]) (simp_all add: div_le_mono)
  also have "\<dots> = index_range 0 sz" using G by (simp add: index_range_def)
  finally have ranges: "concat (map ?R [0..<?G]) = index_range 0 sz" .
  define ps where "ps = map (\<lambda>k. ?F (?R k) 0) [0..<?G]"
  define j where "j = unat num_threads - ?G"
  let ?g = "\<lambda>partial_result result. op result partial_result"
  have "RunReduceP MIN_SIZE granted num_threads sz func op = Inr (ps @ replicate j 0)"
    unfolding ps_def j_def
    using RunReduceP_parallel [OF par granted(2) nowrap, of func op] by (simp add: idx)
  then have "RunReduce MIN_SIZE granted num_threads sz func op = Inr (fold ?g (ps @ replicate j 0) 0)"
    by (simp only: RunReduce_def sum.case)
  also have "fold ?g (ps @ replicate j 0) 0 = fold ?g (replicate j 0) (fold ?g ps 0)"
    by (simp only: fold_append comp_apply)
  also have "\<dots> = fold ?g ps 0"
    by (rule fold_unused_slots [of op, OF idr])
  also have "\<dots> = ?F (concat (map ?R [0..<?G])) 0"
    unfolding ps_def by (rule fold_partials [of op 0 f ?R "[0..<?G]" 0, OF assoc idl idr])
  finally show ?thesis by (simp only: ranges seq_fold_def)
qed

text \<open>
  Claim C1, as amended. Let \<open>op\<close> be associative with 0 as its identity on both sides
  (commutativity is not needed: the partial results are folded in the order of the worker
  ids), and let the value of \<open>func\<close> depend on the index only. For every size and every
  requested worker count of at least 1, \<open>RunReduce\<close> returns the sequential fold of \<open>op\<close>
  over \<open>func\<close> on \<open>[0, size)\<close> from 0, provided that, when the parallel branch is taken,
  the team the runtime grants has between 1 and \<open>num_threads\<close> members and \<open>size\<close> times
  the team's size is below \<open>2^64\<close>.
\<close>

theorem RunReduce_refines_seq_fold:
  assumes assoc: "\<And>x y z. op (op x y) z = op x (op y z)"
    and idl: "\<And>x. op 0 x = x" and idr: "\<And>x. op x 0 = x"
    and idx: "\<And>n m i. func n m i = f i"
    and requested: "num_threads \<ge> 1"
    and granted: "1 < num_threads \<and> MIN_SIZE \<le> sz \<Longrightarrow>
       1 \<le> granted \<and> granted \<le> num_threads \<and> unat sz * unat granted < 2 ^ 64"
  shows "RunReduce MIN_SIZE granted num_threads sz func op = Inr (seq_fold op f sz)"
proof (cases "1 < num_threads \<and> MIN_SIZE \<le> sz")
  case True
  then show ?thesis
    using granted by (intro RunReduce_parallel assoc idl idr idx) simp_all
next
  case False
  have "func 1 0 = f" using idx by auto
  then show ?thesis
    using RunReduce_serial [of num_threads MIN_SIZE sz op granted func]
      requested False idl by simp
qed

theorem RunReduce_refines_seq_fold_witness:
  "(4::unsigned) \<ge> 1 \<and> (1::unsigned) < 4 \<and> (4::uint64) \<le> 10 \<and>
   (1::unsigned) \<le> 3 \<and> (3::unsigned) \<le> 4 \<and> unat (10::uint64) * unat (3::unsigned) < 2 ^ 64 \<and>
   RunReduce 4 3 4 10 (\<lambda>n m i. uint i) (+) = Inr 45"
proof -
  have v: "seq_fold (+) (\<lambda>i::uint64. uint i) 10 = 45" by code_simp
  show ?thesis
    using RunReduce_refines_seq_fold [of "(+)" "\<lambda>n m i. uint i" "\<lambda>i. uint i" 4 4 10 3] v
    by simp
qed

subsection \<open>Inputs outside the amended claim\<close>

lemma fold_add_zero:
  assumes "\<And>i. i \<in> set xs \<Longrightarrow> f i = (0::int)"
  shows "fold (\<lambda>i acc. acc + f i) xs a = a"
  using assms by (induction xs arbitrary: a) simp_all

lemma index_range_below:
  assumes "i \<in> set (index_range 0 b)"
  shows "i < b"
proof -
  obtain k where k: "k < unat b" and i: "i = of_nat k"
    using assms by (auto simp add: index_range_def)
  have "unat (of_nat k :: uint64) = k" using k by (intro le_unat_uoi [of k b]) simp
  then show ?thesis using k i by (simp add: word_less_nat_alt)
qed

lemma index_range_snoc:
  assumes "b < b + 1"
  shows "index_range 0 (b + 1) = index_range 0 b @ [b]"
  using assms by (simp add: index_range_def unat_succ_uint64)

lemma last_index_sum:
  fixes b :: uint64
  assumes "b < b + 1"
  shows "seq_fold (+) (\<lambda>i. if i = b then 1 else 0 :: int) (b + 1) = 1"
proof -
  have "fold (\<lambda>i acc. acc + (if i = b then 1 else 0 :: int)) (index_range 0 b) 0 = 0"
    using index_range_below [of _ b] by (intro fold_add_zero) auto
  then show ?thesis
    by (simp add: seq_fold_def index_range_snoc [OF assms])
qed

lemma wrapped_reduction:
  "RunReduce 1024 2 2 (2 ^ 63) (\<lambda>n m i. if i = 2 ^ 63 - 1 then 1 else 0 :: int) (+) = Inr 0"
proof -
  let ?f = "\<lambda>i :: uint64. if i = 2 ^ 63 - 1 then 1 else 0 :: int"
  have ids: "map of_nat [0..<2] = [0, 1::unsigned]"
    by (simp add: upt_rec)
  have slots: "replicate 2 (0::int) = [0, 0]"
    by (simp add: numeral_2_eq_2)
  have "\<And>i. i \<in> set (index_range 0 (2 ^ 62)) \<Longrightarrow> ?f i = 0"
  proof -
    fix i :: uint64
    assume "i \<in> set (index_range 0 (2 ^ 62))"
    then have "i < 2 ^ 62" by (rule index_range_below)
    then have "i \<noteq> 2 ^ 63 - 1" by auto
    then show "?f i = 0" by simp
  qed
  then have w0: "for_loop 0 (2 ^ 62) (\<lambda>i acc. acc + ?f i) 0 = 0"
    unfolding for_loop_fold by (rule fold_add_zero)
  have w1: "for_loop (2 ^ 62) 0 (\<lambda>i acc. acc + ?f i) 0 = 0"
    by (simp add: for_loop_fold index_range_empty)
  have "RunReduceP 1024 2 2 (2 ^ 63) (\<lambda>n m i. ?f i) (+) = Inr [0, 0]"
    using w0 w1
    by (simp add: RunReduceP_def omp_parallel_def ids slots GetIndex0_def GetIndex1_def
        resize_def store_def)
  then show ?thesis by (simp add: RunReduce_def)
qed

text \<open>
  Two inputs where \<open>RunReduce\<close> is not the sequential fold. With no worker requested it
  folds an empty vector and returns 0, where the fold of the constant 1 over one index is
  1. With size \<open>2^63\<close> and a team of 2, worker 0 is given \<open>[0, 2^62)\<close> and worker 1 is given
  \<open>[2^62, 0)\<close>, which is empty, because \<open>2^63 * 2\<close> wraps to 0: the work function that is 1
  on the last index and 0 elsewhere sums to 0, where the fold is 1.
\<close>

theorem RunReduce_counterexample:
  "RunReduce 1024 1 0 1 (\<lambda>n m i. 1::int) (+) = Inr 0 \<and>
   seq_fold (+) (\<lambda>i. 1::int) 1 = 1 \<and>
   RunReduce 1024 2 2 (2 ^ 63) (\<lambda>n m i. if i = 2 ^ 63 - 1 then 1 else 0 :: int) (+) = Inr 0 \<and>
   seq_fold (+) (\<lambda>i. if i = 2 ^ 63 - 1 then 1 else 0 :: int) (2 ^ 63) = 1"
proof -
  have "seq_fold (+) (\<lambda>i. if i = 2 ^ 63 - 1 then 1 else 0 :: int) (2 ^ 63 - 1 + 1) = 1"
    by (rule last_index_sum) simp
  then have "seq_fold (+) (\<lambda>i. if i = 2 ^ 63 - 1 then 1 else 0 :: int) (2 ^ 63) = 1"
    by simp
  moreover have "RunReduce 1024 1 0 1 (\<lambda>n m i. 1::int) (+) = Inr 0"
    by (simp add: RunReduce_def RunReduceP_def)
  moreover have "seq_fold (+) (\<lambda>i. 1::int) 1 = 1"
    by (simp add: seq_fold_def index_range_def)
  ultimately show ?thesis using wrapped_reduction by simp
qed

section \<open>The ranges of all workers\<close>

lemma find_slot:
  fixes S N x :: nat
  assumes "0 < N" and "x < S"
  shows "\<exists>k<N. S * k div N \<le> x \<and> x < S * Suc k div N"
proof -
  let ?P = "\<lambda>j. x < S * j div N"
  have "\<not> ?P 0" by simp
  moreover have "?P N" using assms by simp
  ultimately obtain k where "k < N" and "\<forall>i\<le>k. \<not> ?P i" and "?P (Suc k)"
    using ex_least_nat_less [of ?P N] by blast
  then have "k < N \<and> S * k div N \<le> x \<and> x < S * Suc k div N" by (simp add: not_less)
  then show ?thesis by blast
qed

lemma worker_range_mem:
  assumes "MIN_SIZE \<le> sz" and "m < num_threads" and "unat sz * unat num_threads < 2 ^ 64"
  shows "i \<in> worker_range MIN_SIZE sz num_threads m \<longleftrightarrow>
         unat sz * unat m div unat num_threads \<le> unat i \<and>
         unat i < unat sz * Suc (unat m) div unat num_threads"
proof -
  have nz: "num_threads \<noteq> 0" using assms(2) by auto
  have "unat m < unat num_threads" using assms(2) by (simp add: word_less_nat_alt)
  then have "unat sz * Suc (unat m) \<le> unat sz * unat num_threads"
    by (intro mult_le_mono2) simp
  then have w1: "unat sz * Suc (unat m) < 2 ^ 64" using assms(3) by linarith
  then have w0: "unat sz * unat m < 2 ^ 64" by simp
  obtain i0 where i0: "GetIndex0 MIN_SIZE sz num_threads m = Inr i0"
    "unat i0 = (unat sz * unat m mod 2 ^ 64) div unat num_threads"
    using assms(1) nz by (rule GetIndex0_value)
  obtain i1 where i1: "GetIndex1 MIN_SIZE sz num_threads m = Inr i1"
    "unat i1 = (unat sz * Suc (unat m) mod 2 ^ 64) div unat num_threads"
    using assms(1,2) by (rule GetIndex1_value)
  have "i \<in> worker_range MIN_SIZE sz num_threads m \<longleftrightarrow> i0 \<le> i \<and> i < i1"
    using i0(1) i1(1) by (simp add: worker_range_def)
  also have "\<dots> \<longleftrightarrow> unat i0 \<le> unat i \<and> unat i < unat i1"
    by (simp add: word_le_nat_alt word_less_nat_alt)
  finally show ?thesis using i0(2) i1(2) w0 w1 by simp
qed

lemma worker_range_below_threshold:
  assumes "sz < MIN_SIZE"
  shows "worker_range MIN_SIZE sz num_threads m = {i. i < sz}"
proof -
  have "\<not> MIN_SIZE \<le> sz" using assms by simp
  then show ?thesis
    by (auto simp add: worker_range_def GetIndex0_def GetIndex1_def)
qed

lemma worker_ranges_union:
  assumes "MIN_SIZE \<le> sz" and "num_threads \<ge> 1" and "unat sz * unat num_threads < 2 ^ 64"
  shows "(\<Union>m \<in> {m. m < num_threads}. worker_range MIN_SIZE sz num_threads m) = {i. i < sz}"
proof (intro set_eqI iffI)
  fix i
  assume "i \<in> (\<Union>m \<in> {m. m < num_threads}. worker_range MIN_SIZE sz num_threads m)"
  then obtain m where m: "m < num_threads" and "i \<in> worker_range MIN_SIZE sz num_threads m"
    by blast
  then have lt: "unat i < unat sz * Suc (unat m) div unat num_threads"
    using worker_range_mem [OF assms(1) m assms(3)] by simp
  have "unat m < unat num_threads" using m by (simp add: word_less_nat_alt)
  then have "unat sz * Suc (unat m) div unat num_threads \<le> unat sz * unat num_threads div unat num_threads"
    by (intro div_le_mono mult_le_mono2) simp
  also have "\<dots> = unat sz" using \<open>unat m < unat num_threads\<close> by simp
  finally have "unat i < unat sz" using lt by simp
  then show "i \<in> {i. i < sz}" by (simp add: word_less_nat_alt)
next
  fix i
  assume "i \<in> {i. i < sz}"
  then have x: "unat i < unat sz" by (simp add: word_less_nat_alt)
  have "0 < num_threads" using assms(2) by (rule unsigned_ge_1_pos)
  then have N: "0 < unat num_threads" by (simp add: unat_gt_0)
  obtain k where k: "k < unat num_threads"
    and slot: "unat sz * k div unat num_threads \<le> unat i"
      "unat i < unat sz * Suc k div unat num_threads"
    using find_slot [OF N x] by blast
  have uk: "unat (of_nat k :: unsigned) = k" using k by (rule unat_member_id)
  then have m: "(of_nat k :: unsigned) < num_threads" using k by (simp add: word_less_nat_alt)
  have "i \<in> worker_range MIN_SIZE sz num_threads (of_nat k)"
    using worker_range_mem [OF assms(1) m assms(3)] slot uk by simp
  then show "i \<in> (\<Union>m \<in> {m. m < num_threads}. worker_range MIN_SIZE sz num_threads m)"
    using m by blast
qed

lemma worker_ranges_ordered_disjoint:
  assumes "MIN_SIZE \<le> sz" and "a < b" and "b < num_threads"
    and "unat sz * unat num_threads < 2 ^ 64"
  shows "worker_range MIN_SIZE sz num_threads a \<inter> worker_range MIN_SIZE sz num_threads b = {}"
proof (rule ccontr)
  assume "worker_range MIN_SIZE sz num_threads a \<inter> worker_range MIN_SIZE sz num_threads b \<noteq> {}"
  then obtain i where ia: "i \<in> worker_range MIN_SIZE sz num_threads a"
    and ib: "i \<in> worker_range MIN_SIZE sz num_threads b" by blast
  have an: "a < num_threads" using assms(2,3) by simp
  have "unat a < unat b" using assms(2) by (simp add: word_less_nat_alt)
  then have "unat sz * Suc (unat a) \<le> unat sz * unat b"
    by (intro mult_le_mono2) simp
  then have "unat sz * Suc (unat a) div unat num_threads \<le> unat sz * unat b div unat num_threads"
    by (rule div_le_mono)
  moreover have "unat i < unat sz * Suc (unat a) div unat num_threads"
    using worker_range_mem [OF assms(1) an assms(4)] ia by simp
  moreover have "unat sz * unat b div unat num_threads \<le> unat i"
    using worker_range_mem [OF assms(1,3,4)] ib by simp
  ultimately show False by linarith
qed

text \<open>
  Claim C2, as amended. For every worker count of at least 1 and every size, such that
  \<open>size * worker_count\<close> is below \<open>2^64\<close> when the size is at least \<open>MIN_SIZE\<close>: the union of
  the ranges of all worker ids below the worker count is exactly \<open>[0, size)\<close>; and when the
  size is at least \<open>MIN_SIZE\<close> the ranges of two different worker ids are disjoint. (Below
  \<open>MIN_SIZE\<close> every worker id has the whole range.)
\<close>

theorem worker_ranges_partition:
  assumes "num_threads \<ge> 1"
    and "MIN_SIZE \<le> sz \<Longrightarrow> unat sz * unat num_threads < 2 ^ 64"
  shows "(\<Union>m \<in> {m. m < num_threads}. worker_range MIN_SIZE sz num_threads m) = {i. i < sz} \<and>
         (MIN_SIZE \<le> sz \<longrightarrow>
            (\<forall>a b. a < num_threads \<and> b < num_threads \<and> a \<noteq> b \<longrightarrow>
               worker_range MIN_SIZE sz num_threads a \<inter>
               worker_range MIN_SIZE sz num_threads b = {}))"
proof (intro conjI impI allI)
  show "(\<Union>m \<in> {m. m < num_threads}. worker_range MIN_SIZE sz num_threads m) = {i. i < sz}"
  proof (cases "MIN_SIZE \<le> sz")
    case True
    then show ?thesis using assms by (intro worker_ranges_union) simp_all
  next
    case False
    then have below: "sz < MIN_SIZE" by simp
    have "0 < num_threads" using assms(1) by (rule unsigned_ge_1_pos)
    then have "{m. m < num_threads} \<noteq> {}" by blast
    then show ?thesis
      unfolding worker_range_below_threshold [OF below] by blast
  qed
next
  fix a b
  assume ge: "MIN_SIZE \<le> sz" and ab: "a < num_threads \<and> b < num_threads \<and> a \<noteq> b"
  have nowrap: "unat sz * unat num_threads < 2 ^ 64" using assms(2) ge by simp
  from ab consider "a < b" | "b < a" by (meson linorder_neqE)
  then show "worker_range MIN_SIZE sz num_threads a \<inter>
             worker_range MIN_SIZE sz num_threads b = {}"
  proof cases
    case 1
    then show ?thesis using ge ab nowrap by (intro worker_ranges_ordered_disjoint) simp_all
  next
    case 2
    then have "worker_range MIN_SIZE sz num_threads b \<inter>
               worker_range MIN_SIZE sz num_threads a = {}"
      using ge ab nowrap by (intro worker_ranges_ordered_disjoint) simp_all
    then show ?thesis by blast
  qed
qed

theorem worker_ranges_partition_witness:
  "(2::unsigned) \<ge> 1 \<and> (1024::uint64) \<le> 2048 \<and> unat (2048::uint64) * unat (2::unsigned) < 2 ^ 64 \<and>
   (0::unsigned) < 2 \<and> (1::unsigned) < 2 \<and> (0::unsigned) \<noteq> 1 \<and>
   (\<Union>m \<in> {m. m < 2}. worker_range 1024 2048 2 m) = {i. i < 2048} \<and>
   worker_range 1024 2048 2 0 \<inter> worker_range 1024 2048 2 1 = {} \<and>
   worker_range 1024 2048 2 0 = {0..<1024} \<and> worker_range 1024 2048 2 1 = {1024..<2048}"
proof -
  have r: "worker_range 1024 2048 2 0 = {0..<1024}" "worker_range 1024 2048 2 1 = {1024..<2048}"
    by (simp_all add: worker_range_def GetIndex0_def GetIndex1_def)
  have h: "(2::unsigned) \<ge> 1" "unat (2048::uint64) * unat (2::unsigned) < 2 ^ 64" by simp_all
  have d: "(0::unsigned) < 2 \<and> (1::unsigned) < 2 \<and> (0::unsigned) \<noteq> 1" by simp
  have g: "(1024::uint64) \<le> 2048" by simp
  from worker_ranges_partition [of 2 1024 2048, OF h(1)] h(2) g d
  have "(\<Union>m \<in> {m. m < 2}. worker_range 1024 2048 2 m) = {i. i < 2048}"
    and "worker_range 1024 2048 2 0 \<inter> worker_range 1024 2048 2 1 = {}"
    by blast+
  then show ?thesis using r h d g by simp
qed

text \<open>
  With size 3 and 2 workers, index 0 is in the range of worker 0 and of worker 1. With size
  \<open>2^63\<close> and 2 workers, index \<open>2^62\<close> is in neither range.
\<close>

theorem worker_ranges_counterexample:
  "(2::unsigned) \<ge> 1 \<and> (0::unsigned) < 2 \<and> (1::unsigned) < 2 \<and> (0::unsigned) \<noteq> 1 \<and>
   (0::uint64) \<in> worker_range 1024 3 2 0 \<and> (0::uint64) \<in> worker_range 1024 3 2 1 \<and>
   (2 ^ 62 :: uint64) < 2 ^ 63 \<and>
   (2 ^ 62 :: uint64) \<notin> worker_range 1024 (2 ^ 63) 2 0 \<and>
   (2 ^ 62 :: uint64) \<notin> worker_range 1024 (2 ^ 63) 2 1"
  by (simp add: worker_range_def GetIndex0_def GetIndex1_def)

section \<open>The seed of the accumulators\<close>

lemma serial_partial_from_zero:
  assumes "num_threads \<ge> 1" and "\<not> (1 < num_threads \<and> MIN_SIZE \<le> sz)"
  shows "RunReduceP MIN_SIZE granted num_threads sz func op =
         Inr [seeded_partial 0 op (func 1 0) (index_range 0 sz)]"
proof -
  have pos: "num_threads > 0" using assms(1) by (rule unsigned_ge_1_pos)
  have "RunReduceP MIN_SIZE granted num_threads sz func op =
      Inr (resize [] 1 (for_loop 0 sz (\<lambda>i result. op result (func 1 0 i)) 0))"
    unfolding RunReduceP_def using assms(2) pos by (simp only: if_False if_True)
  then show ?thesis
    by (simp add: resize_def seeded_partial_def for_loop_fold)
qed

lemma RunReduceP_parallel_partials:
  assumes "1 < num_threads" and "MIN_SIZE \<le> sz" and "granted \<le> num_threads"
    and "unat sz * unat granted < 2 ^ 64"
  shows "RunReduceP MIN_SIZE granted num_threads sz func op =
    Inr (map (\<lambda>k. seeded_partial 0 op (func granted (of_nat k))
                 (map of_nat [unat sz * k div unat granted..<unat sz * Suc k div unat granted]))
           [0..<unat granted]
         @ replicate (unat num_threads - unat granted) 0)"
  using RunReduceP_parallel [OF assms, of func op] by (simp add: seeded_partial_def)

lemma RunReduce_total:
  assumes "RunReduceP MIN_SIZE granted num_threads sz func op = Inr partials"
  shows "RunReduce MIN_SIZE granted num_threads sz func op = Inr (seeded_total 0 op partials)"
  using assms by (simp add: RunReduce_def seeded_total_def)

text \<open>
  Claim C9. Whatever \<open>op\<close> is, every partial result of \<open>RunReduceP\<close> is the accumulator
  seeded at the literal 0: on the serial path the single partial result is the fold from 0
  over \<open>[0, size)\<close>; on the parallel path (with a team no larger than requested and no
  wrap-around) the slot of worker \<open>k\<close> is the fold from 0 over that worker's range, and
  the slots of workers that were not granted stay 0. \<open>RunReduce\<close> folds these partial
  results starting from 0 again. No identity of \<open>op\<close> is consulted: if \<open>e\<close> is a left
  identity of \<open>op\<close> and the partial result on one worker and a single index of value \<open>x\<close>
  is the one of the accumulator seeded at \<open>e\<close>, then \<open>op 0 x = x\<close>. So the results agree
  with the identity-seeded description only when 0 is a left identity of \<open>op\<close>.
\<close>

theorem accumulators_seeded_with_zero:
  "(num_threads \<ge> 1 \<and> (num_threads = 1 \<or> sz < MIN_SIZE) \<longrightarrow>
      RunReduceP MIN_SIZE granted num_threads sz func op =
        Inr [seeded_partial 0 op (func 1 0) (index_range 0 sz)] \<and>
      RunReduce MIN_SIZE granted num_threads sz func op =
        Inr (seeded_total 0 op [seeded_partial 0 op (func 1 0) (index_range 0 sz)])) \<and>
   (1 < num_threads \<and> MIN_SIZE \<le> sz \<and> granted \<le> num_threads \<and>
    unat sz * unat granted < 2 ^ 64 \<longrightarrow>
      RunReduceP MIN_SIZE granted num_threads sz func op =
        Inr (map (\<lambda>k. seeded_partial 0 op (func granted (of_nat k))
                 (map of_nat [unat sz * k div unat granted..<unat sz * Suc k div unat granted]))
               [0..<unat granted]
             @ replicate (unat num_threads - unat granted) 0) \<and>
      RunReduce MIN_SIZE granted num_threads sz func op =
        Inr (seeded_total 0 op
              (map (\<lambda>k. seeded_partial 0 op (func granted (of_nat k))
                 (map of_nat [unat sz * k div unat granted..<unat sz * Suc k div unat granted]))
               [0..<unat granted]
             @ replicate (unat num_threads - unat granted) 0))) \<and>
   ((\<forall>y. op e y = y) \<and>
    RunReduceP MIN_SIZE granted 1 1 (\<lambda>n m i. x) op =
      Inr [seeded_partial e op (\<lambda>i. x) (index_range 0 1)]
    \<longrightarrow> op 0 x = x)"
proof (intro conjI impI)
  assume h: "num_threads \<ge> 1 \<and> (num_threads = 1 \<or> sz < MIN_SIZE)"
  then have ser: "\<not> (1 < num_threads \<and> MIN_SIZE \<le> sz)" by auto
  show p: "RunReduceP MIN_SIZE granted num_threads sz func op =
        Inr [seeded_partial 0 op (func 1 0) (index_range 0 sz)]"
    using h ser by (intro serial_partial_from_zero) simp_all
  show "RunReduce MIN_SIZE granted num_threads sz func op =
        Inr (seeded_total 0 op [seeded_partial 0 op (func 1 0) (index_range 0 sz)])"
    using p by (rule RunReduce_total)
next
  assume h: "1 < num_threads \<and> MIN_SIZE \<le> sz \<and> granted \<le> num_threads \<and>
    unat sz * unat granted < 2 ^ 64"
  show p: "RunReduceP MIN_SIZE granted num_threads sz func op =
        Inr (map (\<lambda>k. seeded_partial 0 op (func granted (of_nat k))
                 (map of_nat [unat sz * k div unat granted..<unat sz * Suc k div unat granted]))
               [0..<unat granted]
             @ replicate (unat num_threads - unat granted) 0)"
    using h by (intro RunReduceP_parallel_partials) simp_all
  show "RunReduce MIN_SIZE granted num_threads sz func op =
        Inr (seeded_total 0 op
              (map (\<lambda>k. seeded_partial 0 op (func granted (of_nat k))
                 (map of_nat [unat sz * k div unat granted..<unat sz * Suc k div unat granted]))
               [0..<unat granted]
             @ replicate (unat num_threads - unat granted) 0))"
    using p by (rule RunReduce_total)
next
  assume h: "(\<forall>y. op e y = y) \<and>
    RunReduceP MIN_SIZE granted 1 1 (\<lambda>n m i. x) op =
      Inr [seeded_partial e op (\<lambda>i. x) (index_range 0 1)]"
  have r: "index_range 0 (1::uint64) = [0]" by (simp add: index_range_def)
  have "RunReduceP MIN_SIZE granted 1 1 (\<lambda>n m i. x) op =
      Inr [seeded_partial 0 op (\<lambda>i. x) (index_range 0 1)]"
    by (rule serial_partial_from_zero) simp_all
  then have "seeded_partial 0 op (\<lambda>i. x) (index_range 0 1) =
      seeded_partial e op (\<lambda>i. x) (index_range 0 1)"
    using h by simp
  then have "op 0 x = op e x" by (simp add: seeded_partial_def r)
  then show "op 0 x = x" using h by simp
qed

theorem accumulators_seeded_with_zero_witness:
  "(4::unsigned) \<ge> 1 \<and> (3::uint64) < 1024 \<and>
   RunReduceP 1024 1 4 3 (\<lambda>n m i. uint i) (+) = Inr [3] \<and>
   RunReduce 1024 1 4 3 (\<lambda>n m i. uint i) (+) = Inr 3 \<and>
   (1::unsigned) < 4 \<and> (4::uint64) \<le> 10 \<and> (3::unsigned) \<le> 4 \<and>
   unat (10::uint64) * unat (3::unsigned) < 2 ^ 64 \<and>
   RunReduceP 4 3 4 10 (\<lambda>n m i. uint i) (+) = Inr [3, 12, 30, 0] \<and>
   RunReduce 4 3 4 10 (\<lambda>n m i. uint i) (+) = Inr 45 \<and>
   (\<forall>y::int. 0 + y = y) \<and>
   RunReduceP 1024 1 1 1 (\<lambda>n m i. 5::int) (+) =
     Inr [seeded_partial 0 (+) (\<lambda>i. 5) (index_range 0 1)] \<and>
   (0::int) + 5 = 5"
proof -
  let ?f = "\<lambda>(n::unsigned) (m::unsigned) (i::uint64). uint i"
  have v1: "seeded_partial 0 (+) (?f 1 0) (index_range 0 3) = 3"
    by code_simp
  have v2: "map (\<lambda>k. seeded_partial 0 (+) (?f 3 (of_nat k))
                 (map of_nat [unat (10::uint64) * k div unat (3::unsigned)..<
                              unat (10::uint64) * Suc k div unat (3::unsigned)]))
               [0..<unat (3::unsigned)]
             @ replicate (unat (4::unsigned) - unat (3::unsigned)) 0 = [3, 12, 30, 0]"
    by code_simp
  have h1: "(4::unsigned) \<ge> 1 \<and> ((4::unsigned) = 1 \<or> (3::uint64) < 1024)" by simp
  have h2: "(1::unsigned) < 4 \<and> (4::uint64) \<le> 10 \<and> (3::unsigned) \<le> 4 \<and>
    unat (10::uint64) * unat (3::unsigned) < 2 ^ 64" by simp
  have r: "index_range 0 (1::uint64) = [0]" by (simp add: index_range_def)
  have h3: "(\<forall>y::int. 0 + y = y) \<and>
    RunReduceP 1024 1 1 1 (\<lambda>n m i. 5::int) (+) =
      Inr [seeded_partial 0 (+) (\<lambda>i. 5) (index_range 0 1)]"
    by (simp add: RunReduceP_def resize_def for_loop_fold seeded_partial_def r)
  from accumulators_seeded_with_zero
    [where num_threads = 4 and sz = 3 and MIN_SIZE = 1024 and granted = 1 and func = ?f
       and op = "(+)" and e = 0 and x = 5] h1
  have a: "RunReduceP 1024 1 4 3 ?f (+) = Inr [seeded_partial 0 (+) (?f 1 0) (index_range 0 3)]"
    "RunReduce 1024 1 4 3 ?f (+) =
       Inr (seeded_total 0 (+) [seeded_partial 0 (+) (?f 1 0) (index_range 0 3)])"
    by blast+
  from accumulators_seeded_with_zero
    [where num_threads = 4 and sz = 10 and MIN_SIZE = 4 and granted = 3 and func = ?f
       and op = "(+)" and e = 0 and x = 5] h2
  have b: "RunReduceP 4 3 4 10 ?f (+) = Inr [3, 12, 30, 0]"
    "RunReduce 4 3 4 10 ?f (+) = Inr (seeded_total 0 (+) [3, 12, 30, 0])"
    unfolding v2 by blast+
  show ?thesis
    using a b h2 h3 unfolding v1 by (simp add: seeded_total_def)
qed

text \<open>
  For the product of integers, whose identity is 1, the partial result of the code on a
  single index of value 5 is 0, where the accumulator seeded at 1 gives 5.
\<close>

lemma product_seed_disagrees:
  "RunReduceP 1024 1 1 1 (\<lambda>n m i. 5::int) (*) = Inr [0] \<and>
   seeded_partial 1 (*) (\<lambda>i. 5::int) (index_range 0 1) = 5"
proof -
  have r: "index_range 0 (1::uint64) = [0]" by (simp add: index_range_def)
  show ?thesis
    by (simp add: RunReduceP_def resize_def for_loop_fold seeded_partial_def r)
qed

end
